theory Spec2Isabelle
  imports Main "HOL-Library.Word"
begin

unbundle bit_operations_syntax

chapter \<open>The model of \<open>net/netfilter/nf_tables.h\<close>\<close>

text \<open>
  The header defines the data values, registers, set elements, expressions, rules and
  chains of the packet classification engine, with the inline functions that copy and
  compare data values, type the registers and walk the expressions of a rule. Each of
  them is a definition below, under the source line it renders; the properties are
  proved in the second chapter.
\<close>

section \<open>Machine types of the header\<close>

type_synonym u8 = "8 word"
type_synonym u16 = "16 word"
type_synonym u32 = "32 word"
type_synonym u64 = "64 word"

text \<open>\<^verbatim>\<open>#define NFT_JUMP_STACK_SIZE 16\<close>\<close>

definition NFT_JUMP_STACK_SIZE :: nat where
  "NFT_JUMP_STACK_SIZE = 16"

section \<open>Object representation: words and bytes\<close>

text \<open>
  \<open>nft_data_copy\<close> reads and writes the \<open>u32\<close> array through \<open>u64\<close> pointers
  and \<open>nft_data_cmp\<close> hands it to \<open>memcmp\<close>, so the model carries the bytes of a
  value. The byte order of a word in memory depends on the machine; both orders are
  modelled and every result below holds for either.
\<close>

datatype endianness = Little_Endian | Big_Endian

text \<open>The \<open>n\<close> low bytes of a word, least significant first.\<close>

definition word_to_bytes_le :: "nat \<Rightarrow> 'a::len word \<Rightarrow> u8 list" where
  "word_to_bytes_le n w = map (\<lambda>i. ucast (drop_bit (8 * i) w)) [0..<n]"

text \<open>The word whose bytes, least significant first, are \<open>bs\<close>.\<close>

definition word_from_bytes_le :: "u8 list \<Rightarrow> 'a::len word" where
  "word_from_bytes_le bs = foldr (\<lambda>b w. ucast b OR push_bit 8 w) bs 0"

text \<open>The \<open>n\<close> bytes of a word in memory order, and the word read from memory.\<close>

definition word_to_bytes :: "endianness \<Rightarrow> nat \<Rightarrow> 'a::len word \<Rightarrow> u8 list" where
  "word_to_bytes e n w =
     (case e of Little_Endian \<Rightarrow> word_to_bytes_le n w
              | Big_Endian \<Rightarrow> rev (word_to_bytes_le n w))"

definition word_from_bytes :: "endianness \<Rightarrow> u8 list \<Rightarrow> 'a::len word" where
  "word_from_bytes e bs =
     (case e of Little_Endian \<Rightarrow> word_from_bytes_le bs
              | Big_Endian \<Rightarrow> word_from_bytes_le (rev bs))"

section \<open>Data values\<close>

text \<open>
  \<^verbatim>\<open>struct nft_data { union { u32 data[4]; struct { u32 verdict; struct nft_chain *chain; }; }; }\<close>

  The four words of the array member \<open>data[0..3]\<close>; the verdict view of the union is
  another reading of the same storage and is not used by the functions below.
\<close>

record nft_data =
  data0 :: u32
  data1 :: u32
  data2 :: u32
  data3 :: u32

text \<open>The 16 bytes of a value, in address order, and the value held by 16 bytes.\<close>

definition nft_data_bytes :: "endianness \<Rightarrow> nft_data \<Rightarrow> u8 list" where
  "nft_data_bytes e d =
     word_to_bytes e 4 (data0 d) @ word_to_bytes e 4 (data1 d) @
     word_to_bytes e 4 (data2 d) @ word_to_bytes e 4 (data3 d)"

definition nft_data_of_bytes :: "endianness \<Rightarrow> u8 list \<Rightarrow> nft_data" where
  "nft_data_of_bytes e bs =
     \<lparr>data0 = word_from_bytes e (take 4 bs),
      data1 = word_from_bytes e (take 4 (drop 4 bs)),
      data2 = word_from_bytes e (take 4 (drop 8 bs)),
      data3 = word_from_bytes e (take 4 (drop 12 bs))\<rparr>"

text \<open>
  \<^verbatim>\<open>*(u64 *)&d->data[i]\<close> as a value: the eight bytes from the address of word \<open>i\<close>,
  read as one 64-bit word.
\<close>

definition load_u64 :: "endianness \<Rightarrow> nft_data \<Rightarrow> nat \<Rightarrow> u64" where
  "load_u64 e d i = word_from_bytes e (take 8 (drop (4 * i) (nft_data_bytes e d)))"

text \<open>
  \<^verbatim>\<open>*(u64 *)&d->data[i] = x\<close>: the eight bytes from the address of word \<open>i\<close> are
  replaced by the bytes of \<open>x\<close>.
\<close>

definition store_u64 :: "endianness \<Rightarrow> nft_data \<Rightarrow> nat \<Rightarrow> u64 \<Rightarrow> nft_data" where
  "store_u64 e d i x =
     (let bs = nft_data_bytes e d
      in nft_data_of_bytes e (take (4 * i) bs @ word_to_bytes e 8 x @ drop (4 * i + 8) bs))"

text \<open>
  \<^verbatim>\<open>*(u64 *)&dst->data[0] = *(u64 *)&src->data[0];\<close>
  \<^verbatim>\<open>*(u64 *)&dst->data[2] = *(u64 *)&src->data[2];\<close>

  The function returns the new contents of \<open>*dst\<close>.
\<close>

definition nft_data_copy :: "endianness \<Rightarrow> nft_data \<Rightarrow> nft_data \<Rightarrow> nft_data" where
  "nft_data_copy e dst src =
     (let dst = store_u64 e dst 0 (load_u64 e src 0);
          dst = store_u64 e dst 2 (load_u64 e src 2)
      in dst)"

text \<open>
  Modelled from the spec: \<open>memcmp\<close> is the C library routine, not part of the
  sources; the spec's \<open>compare(a, b, length) -> equal?\<close> is its result being 0. It
  walks both byte sequences for \<open>count\<close> bytes and returns the difference of the first
  pair of bytes that differ, 0 when there is none. Reading past the end of an object
  has no defined result: \<open>None\<close>.
\<close>

fun memcmp :: "u8 list \<Rightarrow> u8 list \<Rightarrow> nat \<Rightarrow> int option" where
  "memcmp cs ct 0 = Some 0"
| "memcmp (c # cs) (t # ct) (Suc count) =
     (if uint c - uint t \<noteq> 0 then Some (uint c - uint t) else memcmp cs ct count)"
| "memcmp cs ct (Suc count) = None"

text \<open>\<^verbatim>\<open>return memcmp(d1->data, d2->data, len);\<close>\<close>

definition nft_data_cmp :: "endianness \<Rightarrow> nft_data \<Rightarrow> nft_data \<Rightarrow> nat \<Rightarrow> int option" where
  "nft_data_cmp e d1 d2 len = memcmp (nft_data_bytes e d1) (nft_data_bytes e d2) len"

text \<open>
  The specification's reading of the copy, for comparison with \<open>nft_data_copy\<close>: a
  plain copy of the 16 bytes, one byte at a time, from \<open>src\<close> into \<open>dst\<close>.
\<close>

definition nft_data_copy_bytewise :: "endianness \<Rightarrow> nft_data \<Rightarrow> nft_data \<Rightarrow> nft_data" where
  "nft_data_copy_bytewise e dst src =
     nft_data_of_bytes e
       (fold (\<lambda>i bs. bs[i := nft_data_bytes e src ! i]) [0..<16] (nft_data_bytes e dst))"

section \<open>Data types and registers\<close>

text \<open>\<^verbatim>\<open>enum nft_data_types { NFT_DATA_VALUE, NFT_DATA_VERDICT };\<close>\<close>

datatype nft_data_types = NFT_DATA_VALUE | NFT_DATA_VERDICT

text \<open>
  Modelled from the spec: \<^verbatim>\<open>enum nft_registers\<close> is declared in
  \<^verbatim>\<open><linux/netfilter/nf_tables.h>\<close>, which is not among the sources. The spec
  describes the register file as indexed by register number (0..N), one index being
  reserved for verdicts. A C enumeration value is an integer, so a register is a 32-bit
  number here; \<open>NFT_REG_VERDICT\<close> is the reserved index, the first of the
  enumeration, and \<open>NFT_REG_1\<close> the enumerator after it.
\<close>

type_synonym nft_registers = u32

definition NFT_REG_VERDICT :: nft_registers where
  "NFT_REG_VERDICT = 0"

definition NFT_REG_1 :: nft_registers where
  "NFT_REG_1 = 1"

text \<open>
  \<^verbatim>\<open>return reg == NFT_REG_VERDICT ? NFT_DATA_VERDICT : NFT_DATA_VALUE;\<close>
\<close>

definition nft_dreg_to_type :: "nft_registers \<Rightarrow> nft_data_types" where
  "nft_dreg_to_type reg =
     (if reg = NFT_REG_VERDICT then NFT_DATA_VERDICT else NFT_DATA_VALUE)"

text \<open>
  \<^verbatim>\<open>return type == NFT_DATA_VERDICT ? NFT_REG_VERDICT : NFT_REG_1;\<close>
\<close>

definition nft_type_to_reg :: "nft_data_types \<Rightarrow> nft_registers" where
  "nft_type_to_reg type = (if type = NFT_DATA_VERDICT then NFT_REG_VERDICT else NFT_REG_1)"

section \<open>Errors\<close>

text \<open>
  Modelled from the spec: the header returns errors as negative integers chosen by
  code outside the sources; the spec names them in its error taxonomy.
\<close>

datatype nft_error = InvalidType | InvalidLength | InvalidRegister | UnknownChain
  | TypeMismatch | Exists | NotFound | UnsupportedFeature | CycleOrDepthExceeded

section \<open>Sets\<close>

text \<open>
  \<^verbatim>\<open>struct nft_set_elem { void *cookie; struct nft_data key; struct nft_data data; u32 flags; };\<close>
\<close>

record nft_set_elem =
  cookie :: nat
  key :: nft_data
  elem_data :: nft_data
  elem_flags :: u32

text \<open>
  Modelled from the spec: \<^verbatim>\<open>struct nft_set_ops\<close> only declares the function
  pointers \<open>lookup\<close>, \<open>insert\<close> and \<open>remove\<close>; the backends that implement them
  are outside the sources. The spec's contract: a set is a keyed collection;
  \<open>lookup(key) -> (present, data)\<close> is read-only; \<open>insert(element) -> ok | Exists\<close>
  returns \<open>Exists\<close> for a duplicate key without mutating state; \<open>remove(element)\<close>
  takes the element out. The contents are the list of elements in insertion order.
  \<open>lookup\<close> follows the C signature
  \<^verbatim>\<open>bool (*lookup)(const struct nft_set *set, const struct nft_data *key, struct nft_data *data)\<close>:
  the third argument is the caller's \<open>*data\<close>, returned unchanged when the key is
  absent. \<open>insert\<close> returns its status (\<open>None\<close> for success) with the contents
  after the call.
\<close>

definition nft_set_lookup :: "nft_set_elem list \<Rightarrow> nft_data \<Rightarrow> nft_data \<Rightarrow> bool \<times> nft_data" where
  "nft_set_lookup elems k d =
     (case find (\<lambda>e. key e = k) elems of
        None \<Rightarrow> (False, d)
      | Some e \<Rightarrow> (True, elem_data e))"

definition nft_set_insert ::
  "nft_set_elem list \<Rightarrow> nft_set_elem \<Rightarrow> nft_error option \<times> nft_set_elem list" where
  "nft_set_insert elems elem =
     (if list_ex (\<lambda>e. key e = key elem) elems then (Some Exists, elems)
      else (None, elems @ [elem]))"

definition nft_set_remove :: "nft_set_elem list \<Rightarrow> nft_set_elem \<Rightarrow> nft_set_elem list" where
  "nft_set_remove elems elem = filter (\<lambda>e. key e \<noteq> key elem) elems"

section \<open>Expressions and rules\<close>

text \<open>
  \<^verbatim>\<open>struct nft_expr_ops { ...; unsigned int size; };\<close> (the other members are function
  pointers and bookkeeping) and
  \<^verbatim>\<open>struct nft_expr { const struct nft_expr_ops *ops; unsigned char data[]; };\<close>
\<close>

record nft_expr_ops =
  ops_size :: u32

record nft_expr =
  ops :: nft_expr_ops

text \<open>
  \<^verbatim>\<open>struct nft_rule { ...; u64 handle:48, dlen:16; unsigned char data[]; };\<close>

  A pointer to an expression is its byte offset from \<open>&rule->data[0]\<close>, a natural
  number. \<open>data rule off\<close> is the expression header that a read at offset \<open>off\<close>
  finds, whatever the memory there holds, inside the rule or beyond it.
\<close>

record nft_rule =
  handle :: "48 word"
  dlen :: u16
  data :: "nat \<Rightarrow> nft_expr"

text \<open>\<^verbatim>\<open>return (struct nft_expr *)&rule->data[0];\<close>\<close>

definition nft_expr_first :: "nft_rule \<Rightarrow> nat" where
  "nft_expr_first rule = 0"

text \<open>
  \<^verbatim>\<open>return ((void *)expr) + expr->ops->size;\<close> The rule is passed for the memory
  that \<open>expr\<close> points into.
\<close>

definition nft_expr_next :: "nft_rule \<Rightarrow> nat \<Rightarrow> nat" where
  "nft_expr_next rule expr = expr + unat (ops_size (ops (data rule expr)))"

text \<open>\<^verbatim>\<open>return (struct nft_expr *)&rule->data[rule->dlen];\<close>\<close>

definition nft_expr_last :: "nft_rule \<Rightarrow> nat" where
  "nft_expr_last rule = unat (dlen rule)"

text \<open>
  \<^verbatim>\<open>for ((expr) = nft_expr_first(rule), (last) = nft_expr_last(rule); (expr) != (last); (expr) = nft_expr_next(expr))\<close>

  The loop, from a current \<open>expr\<close>, with the pointers on which the body has run so
  far. It returns them when it ends; a loop that runs forever is \<open>None\<close>.
\<close>

partial_function (option) for_each_expr_loop ::
  "nft_rule \<Rightarrow> nat \<Rightarrow> nat \<Rightarrow> nat list \<Rightarrow> nat list option" where
  [code]: "for_each_expr_loop rule expr lst visited =
     (if expr \<noteq> lst
      then for_each_expr_loop rule (nft_expr_next rule expr) lst (visited @ [expr])
      else Some visited)"

definition nft_rule_for_each_expr :: "nft_rule \<Rightarrow> nat list option" where
  "nft_rule_for_each_expr rule =
     for_each_expr_loop rule (nft_expr_first rule) (nft_expr_last rule) []"

text \<open>The value of \<open>expr\<close> after \<open>n\<close> steps of the loop, were it not to stop.\<close>

definition expr_ptr_at :: "nft_rule \<Rightarrow> nat \<Rightarrow> nat" where
  "expr_ptr_at rule n = (nft_expr_next rule ^^ n) (nft_expr_first rule)"

text \<open>
  A rule stores the expressions \<open>es\<close> from offset \<open>off\<close>: each one lies right
  after the one before it and takes \<open>ops->size\<close> bytes, its full size, which
  includes its header and so is not zero; the last one ends at \<open>dlen\<close>.
\<close>

fun rule_layout :: "nft_rule \<Rightarrow> nat \<Rightarrow> nft_expr list \<Rightarrow> bool" where
  "rule_layout rule off [] = (off = unat (dlen rule))"
| "rule_layout rule off (e # es) =
     (data rule off = e \<and> 0 < unat (ops_size (ops e))
      \<and> rule_layout rule (off + unat (ops_size (ops e))) es)"

text \<open>The offsets at which expressions stored from \<open>off\<close> begin.\<close>

fun expr_offsets :: "nat \<Rightarrow> nft_expr list \<Rightarrow> nat list" where
  "expr_offsets off [] = []"
| "expr_offsets off (e # es) = off # expr_offsets (off + unat (ops_size (ops e))) es"

section \<open>Chains\<close>

text \<open>
  \<^verbatim>\<open>struct nft_chain { ...; u64 handle; u8 flags; u16 use; u16 level; char name[NFT_CHAIN_MAXNAMELEN]; };\<close>
\<close>

record nft_chain =
  chain_handle :: u64
  chain_flags :: u8
  use :: u16
  level :: u16
  name :: string

section \<open>The jump graph\<close>

text \<open>
  Modelled from the spec: rule insertion and its validation are defined outside the
  sources (the header declares \<open>nft_validate_data_load\<close> and holds the constant and
  the \<open>level\<close> field). The spec: a chain's \<open>level\<close> is the length of the longest
  jump path reaching it; adding a rule to a chain rejects the insertion with
  \<open>CycleOrDepthExceeded\<close> if accepting one of its jump or goto expressions would
  make a path exceed the jump-stack capacity or would introduce a cycle, with no
  partial mutation; on success the affected chains' levels are recomputed.

  Chains are numbered; the jump graph has an edge \<open>(a, b)\<close> for every jump or goto
  expression in a rule of chain \<open>a\<close> that targets chain \<open>b\<close>.
\<close>

type_synonym jump_graph = "(nat \<times> nat) list"

record nft_table_state =
  chain :: "nat \<Rightarrow> nft_chain"
  jumps :: jump_graph

text \<open>
  The length of the longest jump path that ends at chain \<open>c\<close>, followed backwards for
  at most \<open>fuel\<close> jumps.
\<close>

fun deepest :: "jump_graph \<Rightarrow> nat \<Rightarrow> nat \<Rightarrow> nat" where
  "deepest E 0 c = 0"
| "deepest E (Suc fuel) c =
     foldr max (map (\<lambda>(a, b). if b = c then Suc (deepest E fuel a) else 0) E) 0"

text \<open>
  The depth of chain \<open>c\<close>: the longest jump path reaching it, followed for one jump
  more than the jump stack holds, which is enough to see a path that is too long; a
  cycle shows up as such a path.
\<close>

definition chain_depth :: "jump_graph \<Rightarrow> nat \<Rightarrow> nat" where
  "chain_depth E c = deepest E (Suc NFT_JUMP_STACK_SIZE) c"

text \<open>Some chain is reached by a path longer than the jump stack.\<close>

definition depth_exceeded :: "jump_graph \<Rightarrow> bool" where
  "depth_exceeded E = list_ex (\<lambda>(a, b). NFT_JUMP_STACK_SIZE < chain_depth E b) E"

definition recompute_levels :: "jump_graph \<Rightarrow> (nat \<Rightarrow> nft_chain) \<Rightarrow> nat \<Rightarrow> nft_chain" where
  "recompute_levels E tbl c = (tbl c)\<lparr>level := of_nat (chain_depth E c)\<rparr>"

text \<open>One jump or goto expression, in a rule of chain \<open>a\<close>, targeting chain \<open>b\<close>.\<close>

definition add_jump :: "nft_table_state \<Rightarrow> nat \<Rightarrow> nat \<Rightarrow> nft_error + nft_table_state" where
  "add_jump st a b =
     (let E = (a, b) # jumps st
      in if depth_exceeded E then Inl CycleOrDepthExceeded
         else Inr (st\<lparr>chain := recompute_levels E (chain st), jumps := E\<rparr>))"

text \<open>
  Adding to chain \<open>a\<close> a rule whose jump and goto expressions target the chains
  \<open>bs\<close>, in order. An error leaves the state the caller passed as it was.
\<close>

fun insert_rule :: "nft_table_state \<Rightarrow> nat \<Rightarrow> nat list \<Rightarrow> nft_error + nft_table_state" where
  "insert_rule st a [] = Inr st"
| "insert_rule st a (b # bs) =
     (case add_jump st a b of Inl err \<Rightarrow> Inl err | Inr st' \<Rightarrow> insert_rule st' a bs)"

text \<open>\<open>jump_path E a n c\<close>: \<open>n\<close> jumps of the graph lead from chain \<open>a\<close> to chain \<open>c\<close>.\<close>

inductive jump_path :: "jump_graph \<Rightarrow> nat \<Rightarrow> nat \<Rightarrow> nat \<Rightarrow> bool" for E where
  here: "jump_path E a 0 a"
| jump: "jump_path E a n b \<Longrightarrow> (b, c) \<in> set E \<Longrightarrow> jump_path E a (Suc n) c"

text \<open>
  The configurations that can arise: no jumps and every level 0 at the start, then
  any number of accepted rule insertions.
\<close>

inductive reachable :: "nft_table_state \<Rightarrow> bool" where
  initial: "jumps st = [] \<Longrightarrow> (\<And>c. level (chain st c) = 0) \<Longrightarrow> reachable st"
| inserted: "reachable st \<Longrightarrow> insert_rule st a bs = Inr st' \<Longrightarrow> reachable st'"

text \<open>
  The stored levels are the longest path lengths and no path is longer than the jump
  stack.
\<close>

definition levels_inv :: "nft_table_state \<Rightarrow> bool" where
  "levels_inv st \<longleftrightarrow>
     (\<forall>c. level (chain st c) = of_nat (chain_depth (jumps st) c))
     \<and> \<not> depth_exceeded (jumps st)"

text \<open>A table before any rule is added: no jumps, every chain at level 0 and unused.\<close>

definition empty_table :: nft_table_state where
  "empty_table =
     \<lparr>chain = (\<lambda>c. \<lparr>chain_handle = of_nat c, chain_flags = 0, use = 0, level = 0,
                     name = []\<rparr>),
      jumps = []\<rparr>"

chapter \<open>Properties\<close>

section \<open>Words and bytes: properties\<close>

lemma length_word_to_bytes_le: "length (word_to_bytes_le n w) = n"
  by (simp add: word_to_bytes_le_def)

lemma bit_word_from_bytes_le:
  "bit (word_from_bytes_le bs :: 'a::len word) k \<longleftrightarrow>
     k < LENGTH('a) \<and> k div 8 < length bs \<and> bit (bs ! (k div 8)) (k mod 8)"
proof (induction bs arbitrary: k)
  case Nil
  then show ?case by (simp add: word_from_bytes_le_def)
next
  case (Cons b bs)
  have step: "word_from_bytes_le (b # bs) = (ucast b OR push_bit 8 (word_from_bytes_le bs) :: 'a word)"
    by (simp add: word_from_bytes_le_def)
  show ?case
  proof (cases "k < 8")
    case True
    then show ?thesis
      by (auto simp add: step bit_simps dest: bit_imp_le_length)
  next
    case False
    then have k: "k div 8 = Suc ((k - 8) div 8)" "k mod 8 = (k - 8) mod 8"
      by (simp_all add: le_div_geq le_mod_geq)
    from False show ?thesis
      apply (simp add: step bit_simps Cons.IH k not_less)
      apply (auto dest: bit_imp_le_length)
      done
  qed
qed

lemma bit_word_to_bytes_le:
  "i < n \<Longrightarrow>
   bit (word_to_bytes_le n (w :: 'a::len word) ! i) j \<longleftrightarrow> j < 8 \<and> bit w (8 * i + j)"
  by (auto simp add: word_to_bytes_le_def bit_simps ac_simps)

lemma word_from_to_bytes_le:
  "LENGTH('a) \<le> 8 * n \<Longrightarrow> word_from_bytes_le (word_to_bytes_le n w) = (w :: 'a::len word)"
  apply (rule bit_word_eqI)
  apply (simp add: bit_word_from_bytes_le length_word_to_bytes_le)
  apply (subst bit_word_to_bytes_le)
   apply (auto simp add: less_mult_imp_div_less mult.commute)
  done

lemma word_to_from_bytes_le:
  "8 * length bs \<le> LENGTH('a) \<Longrightarrow>
   word_to_bytes_le (length bs) (word_from_bytes_le bs :: 'a::len word) = bs"
  apply (rule nth_equalityI)
   apply (simp add: length_word_to_bytes_le)
  apply (rule bit_word_eqI)
  apply (simp add: length_word_to_bytes_le bit_word_to_bytes_le bit_word_from_bytes_le)
  done

lemma length_word_to_bytes: "length (word_to_bytes e n w) = n"
  by (cases e) (simp_all add: word_to_bytes_def length_word_to_bytes_le)

lemma word_from_to_bytes:
  "LENGTH('a) \<le> 8 * n \<Longrightarrow> word_from_bytes e (word_to_bytes e n w) = (w :: 'a::len word)"
  by (cases e) (simp_all add: word_to_bytes_def word_from_bytes_def word_from_to_bytes_le)

lemma word_to_from_bytes:
  "8 * length bs \<le> LENGTH('a) \<Longrightarrow> length bs = n \<Longrightarrow>
   word_to_bytes e n (word_from_bytes e bs :: 'a::len word) = bs"
  using word_to_from_bytes_le [of bs, where 'a = 'a]
    word_to_from_bytes_le [of "rev bs", where 'a = 'a]
  by (cases e) (auto simp add: word_to_bytes_def word_from_bytes_def)

section \<open>Data values: copy and compare\<close>

lemma length_nft_data_bytes: "length (nft_data_bytes e d) = 16"
  by (simp add: nft_data_bytes_def length_word_to_bytes)

lemma nft_data_of_bytes_bytes: "nft_data_of_bytes e (nft_data_bytes e d) = d"
  by (simp add: nft_data_of_bytes_def nft_data_bytes_def length_word_to_bytes
      word_from_to_bytes)

lemma nft_data_bytes_of_bytes:
  assumes "length bs = 16"
  shows "nft_data_bytes e (nft_data_of_bytes e bs) = bs"
proof -
  have "nft_data_bytes e (nft_data_of_bytes e bs) =
      take 4 bs @ take 4 (drop 4 bs) @ take 4 (drop 8 bs) @ take 4 (drop 12 bs)"
    using assms
    by (simp add: nft_data_of_bytes_def nft_data_bytes_def word_to_from_bytes)
  also have "\<dots> = bs"
  proof -
    have a: "take 4 (drop 12 bs) = drop 12 bs"
      using assms by simp
    have b: "take 4 (drop 8 bs) @ drop 12 bs = drop 8 bs"
      using append_take_drop_id [of 4 "drop 8 bs"] by simp
    have c: "take 4 (drop 4 bs) @ drop 8 bs = drop 4 bs"
      using append_take_drop_id [of 4 "drop 4 bs"] by simp
    have d: "take 4 bs @ drop 4 bs = bs"
      by simp
    show ?thesis
      by (simp only: a b c d)
  qed
  finally show ?thesis .
qed

lemma store_u64_load_u64_bytes:
  "i \<le> 2 \<Longrightarrow>
   nft_data_bytes e (store_u64 e dst i (load_u64 e src i)) =
     take (4 * i) (nft_data_bytes e dst) @ take 8 (drop (4 * i) (nft_data_bytes e src))
       @ drop (4 * i + 8) (nft_data_bytes e dst)"
  by (simp add: store_u64_def load_u64_def Let_def nft_data_bytes_of_bytes
      length_nft_data_bytes length_word_to_bytes word_to_from_bytes)

lemma nft_data_copy_bytes:
  "nft_data_bytes e (nft_data_copy e dst src) = nft_data_bytes e src"
proof -
  let ?s = "nft_data_bytes e src"
  let ?d1 = "store_u64 e dst 0 (load_u64 e src 0)"
  have 1: "nft_data_bytes e ?d1 = take 8 ?s @ drop 8 (nft_data_bytes e dst)"
    using store_u64_load_u64_bytes [of 0 e dst src] by simp
  have "nft_data_bytes e (store_u64 e ?d1 2 (load_u64 e src 2)) =
      take 8 (nft_data_bytes e ?d1) @ take 8 (drop 8 ?s) @ drop 16 (nft_data_bytes e ?d1)"
    using store_u64_load_u64_bytes [of 2 e ?d1 src] by simp
  also have "\<dots> = take 8 ?s @ drop 8 ?s"
    by (simp add: 1 length_nft_data_bytes)
  finally show ?thesis
    by (simp add: nft_data_copy_def Let_def)
qed

lemma nft_data_copy_eq: "nft_data_copy e dst src = src"
  using nft_data_copy_bytes [of e dst src] nft_data_of_bytes_bytes
  by metis

lemma memcmp_same: "len \<le> length bs \<Longrightarrow> memcmp bs bs len = Some 0"
proof (induction bs arbitrary: len)
  case Nil
  then show ?case by simp
next
  case (Cons b bs)
  then show ?case by (cases len) simp_all
qed

lemma fold_update_bytes:
  "length bs = length cs \<Longrightarrow> n \<le> length cs \<Longrightarrow>
   fold (\<lambda>i bs. bs[i := cs ! i]) [0..<n] bs = take n cs @ drop n bs"
proof (induction n)
  case 0
  then show ?case by simp
next
  case (Suc n)
  then show ?case
    by (simp add: take_Suc_conv_app_nth upd_conv_take_nth_drop)
qed

lemma nft_data_copy_bytewise_eq: "nft_data_copy_bytewise e dst src = src"
  by (simp add: nft_data_copy_bytewise_def fold_update_bytes length_nft_data_bytes
      nft_data_of_bytes_bytes)

text \<open>
  Claim C1. For every data value \<open>v\<close> and every length \<open>len \<le> 16\<close>, copying \<open>v\<close>
  into a destination with \<open>nft_data_copy\<close> and comparing the original with the copy
  by \<open>nft_data_cmp\<close> over \<open>len\<close> bytes gives 0, whatever the destination held and
  whatever the byte order.
\<close>

theorem nft_data_copy_then_cmp_equal:
  "len \<le> 16 \<Longrightarrow> nft_data_cmp e v (nft_data_copy e dst v) len = Some 0"
  by (simp add: nft_data_cmp_def nft_data_copy_bytes memcmp_same length_nft_data_bytes)

theorem nft_data_copy_then_cmp_equal_witness:
  "(16::nat) \<le> 16
   \<and> nft_data_cmp Big_Endian
        \<lparr>data0 = 0x11223344, data1 = 0xAABBCCDD, data2 = 3, data3 = 0xDEADBEEF\<rparr>
        (nft_data_copy Big_Endian
           \<lparr>data0 = 1, data1 = 2, data2 = 3, data3 = 4\<rparr>
           \<lparr>data0 = 0x11223344, data1 = 0xAABBCCDD, data2 = 3, data3 = 0xDEADBEEF\<rparr>)
        16 = Some 0"
  using nft_data_copy_then_cmp_equal [of 16 Big_Endian
      "\<lparr>data0 = 0x11223344, data1 = 0xAABBCCDD, data2 = 3, data3 = 0xDEADBEEF\<rparr>"
      "\<lparr>data0 = 1, data1 = 2, data2 = 3, data3 = 4\<rparr>"]
  by simp

text \<open>
  Claim C3. \<open>nft_data_copy\<close>, two 8-byte chunk assignments, does what a plain copy of
  the 16 bytes one at a time does: both leave the same value in \<open>dst\<close>, and after
  \<open>nft_data_copy\<close> each of the 16 bytes of \<open>dst\<close> is the corresponding byte of
  \<open>src\<close>.
\<close>

theorem nft_data_copy_is_bytewise_copy:
  "nft_data_copy e dst src = nft_data_copy_bytewise e dst src
   \<and> length (nft_data_bytes e (nft_data_copy e dst src)) = 16
   \<and> length (nft_data_bytes e src) = 16
   \<and> (\<forall>i<16. nft_data_bytes e (nft_data_copy e dst src) ! i = nft_data_bytes e src ! i)"
  by (simp add: nft_data_copy_eq nft_data_copy_bytewise_eq length_nft_data_bytes)

theorem nft_data_copy_is_bytewise_copy_witness:
  "nft_data_copy Little_Endian
      \<lparr>data0 = 1, data1 = 2, data2 = 3, data3 = 4\<rparr>
      \<lparr>data0 = 0x11223344, data1 = 0xAABBCCDD, data2 = 3, data3 = 0xDEADBEEF\<rparr>
    = nft_data_copy_bytewise Little_Endian
      \<lparr>data0 = 1, data1 = 2, data2 = 3, data3 = 4\<rparr>
      \<lparr>data0 = 0x11223344, data1 = 0xAABBCCDD, data2 = 3, data3 = 0xDEADBEEF\<rparr>
   \<and> (5::nat) < 16
   \<and> nft_data_bytes Little_Endian (nft_data_copy Little_Endian
        \<lparr>data0 = 1, data1 = 2, data2 = 3, data3 = 4\<rparr>
        \<lparr>data0 = 0x11223344, data1 = 0xAABBCCDD, data2 = 3, data3 = 0xDEADBEEF\<rparr>) ! 5
      = nft_data_bytes Little_Endian
        \<lparr>data0 = 0x11223344, data1 = 0xAABBCCDD, data2 = 3, data3 = 0xDEADBEEF\<rparr> ! 5"
proof -
  have h: "(5::nat) < 16"
    by simp
  from h nft_data_copy_is_bytewise_copy [of Little_Endian
      "\<lparr>data0 = 1, data1 = 2, data2 = 3, data3 = 4\<rparr>"
      "\<lparr>data0 = 0x11223344, data1 = 0xAABBCCDD, data2 = 3, data3 = 0xDEADBEEF\<rparr>"]
  show ?thesis
    by blast
qed

section \<open>Register typing\<close>

text \<open>
  Claim C4. For every register index \<open>reg\<close>, \<open>nft_dreg_to_type\<close> gives
  \<open>NFT_DATA_VERDICT\<close> exactly when \<open>reg\<close> is the reserved verdict register
  \<open>NFT_REG_VERDICT\<close>, and gives \<open>NFT_DATA_VALUE\<close> for every other register.
\<close>

theorem nft_dreg_to_type_verdict_iff:
  "(nft_dreg_to_type reg = NFT_DATA_VERDICT) = (reg = NFT_REG_VERDICT)
   \<and> (nft_dreg_to_type reg = NFT_DATA_VALUE) = (reg \<noteq> NFT_REG_VERDICT)"
  by (simp add: nft_dreg_to_type_def)

text \<open>
  Claim C9. \<open>nft_type_to_reg\<close> is a right inverse of \<open>nft_dreg_to_type\<close>: mapping
  a data type to its register and back gives the type again. It is not a left inverse:
  every value-typed register maps back to \<open>NFT_REG_1\<close>, so a register that is
  neither the verdict register nor \<open>NFT_REG_1\<close> is not recovered, and such a
  register exists.
\<close>

theorem nft_type_to_reg_right_not_left_inverse:
  "(\<forall>t. nft_dreg_to_type (nft_type_to_reg t) = t)
   \<and> (\<forall>reg. reg \<noteq> NFT_REG_VERDICT \<and> reg \<noteq> NFT_REG_1 \<longrightarrow>
          nft_type_to_reg (nft_dreg_to_type reg) = NFT_REG_1
          \<and> nft_type_to_reg (nft_dreg_to_type reg) \<noteq> reg)
   \<and> (\<exists>reg. nft_type_to_reg (nft_dreg_to_type reg) \<noteq> reg)"
proof (intro conjI allI impI)
  fix t
  show "nft_dreg_to_type (nft_type_to_reg t) = t"
    by (cases t) (simp_all add: nft_dreg_to_type_def nft_type_to_reg_def
        NFT_REG_VERDICT_def NFT_REG_1_def)
next
  fix reg :: nft_registers
  assume r: "reg \<noteq> NFT_REG_VERDICT \<and> reg \<noteq> NFT_REG_1"
  then show "nft_type_to_reg (nft_dreg_to_type reg) = NFT_REG_1"
    by (simp add: nft_dreg_to_type_def nft_type_to_reg_def)
  with r show "nft_type_to_reg (nft_dreg_to_type reg) \<noteq> reg"
    by auto
next
  have "nft_type_to_reg (nft_dreg_to_type 2) \<noteq> 2"
    by (simp add: nft_dreg_to_type_def nft_type_to_reg_def
        NFT_REG_VERDICT_def NFT_REG_1_def)
  then show "\<exists>reg. nft_type_to_reg (nft_dreg_to_type reg) \<noteq> reg"
    by blast
qed

theorem nft_type_to_reg_right_not_left_inverse_witness:
  "nft_dreg_to_type (nft_type_to_reg NFT_DATA_VALUE) = NFT_DATA_VALUE
   \<and> (2::nft_registers) \<noteq> NFT_REG_VERDICT \<and> (2::nft_registers) \<noteq> NFT_REG_1
   \<and> nft_type_to_reg (nft_dreg_to_type 2) = NFT_REG_1
   \<and> nft_type_to_reg (nft_dreg_to_type 2) \<noteq> 2"
proof -
  have h: "(2::nft_registers) \<noteq> NFT_REG_VERDICT \<and> (2::nft_registers) \<noteq> NFT_REG_1"
    by (simp add: NFT_REG_VERDICT_def NFT_REG_1_def)
  from nft_type_to_reg_right_not_left_inverse h show ?thesis
    by blast
qed

section \<open>Iterating over the expressions of a rule\<close>

lemma loop_hits:
  "(nft_expr_next rule ^^ n) expr = lst \<Longrightarrow>
   (\<And>k. k < n \<Longrightarrow> (nft_expr_next rule ^^ k) expr \<noteq> lst) \<Longrightarrow>
   for_each_expr_loop rule expr lst visited =
     Some (visited @ map (\<lambda>k. (nft_expr_next rule ^^ k) expr) [0..<n])"
proof (induction n arbitrary: expr visited)
  case 0
  then show ?case
    by (simp add: for_each_expr_loop.simps)
next
  case (Suc n)
  from Suc.prems(2) [of 0] have ne: "expr \<noteq> lst"
    by simp
  have hit: "(nft_expr_next rule ^^ n) (nft_expr_next rule expr) = lst"
    using Suc.prems(1) by (simp add: funpow_swap1)
  have before: "(nft_expr_next rule ^^ k) (nft_expr_next rule expr) \<noteq> lst" if "k < n" for k
    using Suc.prems(2) [of "Suc k"] that by (simp add: funpow_swap1)
  have "for_each_expr_loop rule expr lst visited =
      for_each_expr_loop rule (nft_expr_next rule expr) lst (visited @ [expr])"
    using ne by (subst for_each_expr_loop.simps) simp
  also have "\<dots> = Some ((visited @ [expr]) @
      map (\<lambda>k. (nft_expr_next rule ^^ k) (nft_expr_next rule expr)) [0..<n])"
    by (rule Suc.IH [OF hit before])
  also have "(visited @ [expr]) @
      map (\<lambda>k. (nft_expr_next rule ^^ k) (nft_expr_next rule expr)) [0..<n] =
      visited @ map (\<lambda>k. (nft_expr_next rule ^^ k) expr) [0..<Suc n]"
    by (simp add: upt_rec [of 0 "Suc n"] map_Suc_upt [symmetric] funpow_swap1 del: upt_Suc)
  finally show ?case .
qed

lemma loop_returns_hits:
  assumes "for_each_expr_loop rule expr lst visited = Some ys"
  shows "\<exists>n. (nft_expr_next rule ^^ n) expr = lst"
  using assms
proof (induction rule: for_each_expr_loop.raw_induct [rotated, consumes 1])
  case (1 loop rule expr lst visited ys)
  show ?case
  proof (cases "expr = lst")
    case True
    then have "(nft_expr_next rule ^^ 0) expr = lst"
      by simp
    then show ?thesis
      by blast
  next
    case False
    with 1(2) have "loop rule (nft_expr_next rule expr) lst (visited @ [expr]) = Some ys"
      by simp
    from 1(1) [OF this] obtain n
      where "(nft_expr_next rule ^^ n) (nft_expr_next rule expr) = lst" ..
    then have "(nft_expr_next rule ^^ Suc n) expr = lst"
      by (simp add: funpow_swap1)
    then show ?thesis
      by blast
  qed
qed

lemma stuck_forever:
  assumes "nft_expr_next rule p = p"
  shows "(nft_expr_next rule ^^ n) p = p"
  using assms by (induction n) simp_all

lemma first_hit_steps_positive:
  assumes hit: "(nft_expr_next rule ^^ n) expr = lst"
    and before: "\<And>k. k < n \<Longrightarrow> (nft_expr_next rule ^^ k) expr \<noteq> lst"
    and k: "k < n"
  shows "0 < unat (ops_size (ops (data rule ((nft_expr_next rule ^^ k) expr))))"
proof (rule ccontr)
  let ?p = "(nft_expr_next rule ^^ k) expr"
  assume "\<not> 0 < unat (ops_size (ops (data rule ?p)))"
  then have "nft_expr_next rule ?p = ?p"
    by (simp add: nft_expr_next_def)
  then have "(nft_expr_next rule ^^ (n - k)) ?p = ?p"
    by (rule stuck_forever)
  moreover have "(nft_expr_next rule ^^ (n - k)) ?p = (nft_expr_next rule ^^ n) expr"
    using funpow_add [of "n - k" k "nft_expr_next rule"] k by simp
  ultimately have "?p = lst"
    using hit by simp
  with before [OF k] show False
    by simp
qed

lemma for_each_returns_iff:
  "(\<exists>visited. nft_rule_for_each_expr rule = Some visited) =
     (\<exists>n. expr_ptr_at rule n = nft_expr_last rule
        \<and> (\<forall>k<n. 0 < unat (ops_size (ops (data rule (expr_ptr_at rule k))))))"
proof
  assume "\<exists>visited. nft_rule_for_each_expr rule = Some visited"
  then obtain ys where
    "for_each_expr_loop rule (nft_expr_first rule) (nft_expr_last rule) [] = Some ys"
    by (auto simp add: nft_rule_for_each_expr_def)
  then have ex: "\<exists>n. expr_ptr_at rule n = nft_expr_last rule"
    unfolding expr_ptr_at_def by (rule loop_returns_hits)
  define n where "n = (LEAST n. expr_ptr_at rule n = nft_expr_last rule)"
  have hit: "expr_ptr_at rule n = nft_expr_last rule"
    unfolding n_def using ex by (rule LeastI_ex)
  have before: "expr_ptr_at rule k \<noteq> nft_expr_last rule" if "k < n" for k
    using that not_less_Least unfolding n_def by blast
  have "0 < unat (ops_size (ops (data rule (expr_ptr_at rule k))))" if "k < n" for k
    using first_hit_steps_positive [where rule = rule and n = n and k = k
        and expr = "nft_expr_first rule" and lst = "nft_expr_last rule"]
      hit before that
    by (simp add: expr_ptr_at_def)
  with hit show "\<exists>n. expr_ptr_at rule n = nft_expr_last rule
        \<and> (\<forall>k<n. 0 < unat (ops_size (ops (data rule (expr_ptr_at rule k)))))"
    by blast
next
  assume "\<exists>n. expr_ptr_at rule n = nft_expr_last rule
        \<and> (\<forall>k<n. 0 < unat (ops_size (ops (data rule (expr_ptr_at rule k)))))"
  then have ex: "\<exists>n. expr_ptr_at rule n = nft_expr_last rule"
    by blast
  define n where "n = (LEAST n. expr_ptr_at rule n = nft_expr_last rule)"
  have hit: "expr_ptr_at rule n = nft_expr_last rule"
    unfolding n_def using ex by (rule LeastI_ex)
  have before: "expr_ptr_at rule k \<noteq> nft_expr_last rule" if "k < n" for k
    using that not_less_Least unfolding n_def by blast
  have "for_each_expr_loop rule (nft_expr_first rule) (nft_expr_last rule) [] =
      Some ([] @ map (\<lambda>k. (nft_expr_next rule ^^ k) (nft_expr_first rule)) [0..<n])"
    using hit before by (intro loop_hits) (simp_all add: expr_ptr_at_def)
  then show "\<exists>visited. nft_rule_for_each_expr rule = Some visited"
    by (simp add: nft_rule_for_each_expr_def)
qed

lemma never_hits_never_returns:
  assumes "\<And>n. expr_ptr_at rule n \<noteq> nft_expr_last rule"
  shows "nft_rule_for_each_expr rule = None"
proof (cases "nft_rule_for_each_expr rule")
  case None
  then show ?thesis .
next
  case (Some ys)
  then have "\<exists>visited. nft_rule_for_each_expr rule = Some visited"
    by blast
  with assms show ?thesis
    unfolding for_each_returns_iff by blast
qed

lemma expr_ptr_at_mono: "expr_ptr_at rule n \<le> expr_ptr_at rule (n + d)"
  by (induction d) (simp_all add: expr_ptr_at_def nft_expr_next_def trans_le_add1)

lemma overshoot_never_returns:
  assumes "nft_expr_last rule < expr_ptr_at rule n"
    and "\<And>k. k < n \<Longrightarrow> expr_ptr_at rule k \<noteq> nft_expr_last rule"
  shows "nft_rule_for_each_expr rule = None"
proof (rule never_hits_never_returns)
  fix m
  show "expr_ptr_at rule m \<noteq> nft_expr_last rule"
  proof (cases "m < n")
    case True
    with assms(2) show ?thesis
      by simp
  next
    case False
    then have "expr_ptr_at rule n \<le> expr_ptr_at rule m"
      using expr_ptr_at_mono [of rule n "m - n"] by simp
    with assms(1) show ?thesis
      by simp
  qed
qed

lemma rule_layout_end:
  "rule_layout rule off es \<Longrightarrow>
   off + sum_list (map (\<lambda>e. unat (ops_size (ops e))) es) = unat (dlen rule)"
  by (induction es arbitrary: off) (fastforce simp add: ac_simps)+

lemma rule_layout_loop:
  "rule_layout rule off es \<Longrightarrow>
   for_each_expr_loop rule off (unat (dlen rule)) visited = Some (visited @ expr_offsets off es)"
proof (induction es arbitrary: off visited)
  case Nil
  then show ?case
    by (simp add: for_each_expr_loop.simps)
next
  case (Cons e es)
  from Cons.prems have e: "data rule off = e" and pos: "0 < unat (ops_size (ops e))"
    and rest: "rule_layout rule (off + unat (ops_size (ops e))) es"
    by simp_all
  from rule_layout_end [OF rest] pos have ne: "off \<noteq> unat (dlen rule)"
    by simp
  have "for_each_expr_loop rule off (unat (dlen rule)) visited =
      for_each_expr_loop rule (off + unat (ops_size (ops e))) (unat (dlen rule)) (visited @ [off])"
    using ne e by (subst for_each_expr_loop.simps) (simp add: nft_expr_next_def)
  also have "\<dots> = Some ((visited @ [off]) @ expr_offsets (off + unat (ops_size (ops e))) es)"
    by (rule Cons.IH [OF rest])
  finally show ?case
    by simp
qed

lemma rule_layout_exprs:
  "rule_layout rule off es \<Longrightarrow> map (data rule) (expr_offsets off es) = es"
  by (induction es arbitrary: off) auto

text \<open>
  Claim C6. When a rule stores the expressions \<open>es\<close> as a contiguous sequence of
  total length \<open>dlen\<close>, \<open>nft_rule_for_each_expr\<close> returns, and it visits exactly
  the expressions of the rule in their stored order: it starts at byte offset 0, each
  step advances by the \<open>ops->size\<close> of the expression it is on, and it stops at byte
  offset \<open>dlen\<close>.
\<close>

theorem nft_rule_for_each_expr_visits_all:
  assumes "rule_layout rule (nft_expr_first rule) es"
  shows "nft_rule_for_each_expr rule = Some (expr_offsets 0 es)
         \<and> map (data rule) (expr_offsets 0 es) = es
         \<and> sum_list (map (\<lambda>e. unat (ops_size (ops e))) es) = unat (dlen rule)"
  using assms rule_layout_loop [of rule 0 es "[]"] rule_layout_exprs [of rule 0 es]
    rule_layout_end [of rule 0 es]
  by (simp add: nft_rule_for_each_expr_def nft_expr_first_def nft_expr_last_def)

theorem nft_rule_for_each_expr_visits_all_witness:
  "rule_layout
     \<lparr>handle = 7, dlen = 24,
      data = (\<lambda>off. if off = 0 then \<lparr>ops = \<lparr>ops_size = 8\<rparr>\<rparr> else \<lparr>ops = \<lparr>ops_size = 16\<rparr>\<rparr>)\<rparr>
     0 [\<lparr>ops = \<lparr>ops_size = 8\<rparr>\<rparr>, \<lparr>ops = \<lparr>ops_size = 16\<rparr>\<rparr>]
   \<and> nft_rule_for_each_expr
     \<lparr>handle = 7, dlen = 24,
      data = (\<lambda>off. if off = 0 then \<lparr>ops = \<lparr>ops_size = 8\<rparr>\<rparr> else \<lparr>ops = \<lparr>ops_size = 16\<rparr>\<rparr>)\<rparr>
     = Some [0, 8]"
  using nft_rule_for_each_expr_visits_all [of
      "\<lparr>handle = 7, dlen = 24,
        data = (\<lambda>off. if off = 0 then \<lparr>ops = \<lparr>ops_size = 8\<rparr>\<rparr>
                       else \<lparr>ops = \<lparr>ops_size = 16\<rparr>\<rparr>)\<rparr>"
      "[\<lparr>ops = \<lparr>ops_size = 8\<rparr>\<rparr>, \<lparr>ops = \<lparr>ops_size = 16\<rparr>\<rparr>]"]
  by (simp add: nft_expr_first_def)

text \<open>
  Claim C8. The iteration over a rule returns if and only if the successive values of
  \<open>expr\<close>, starting from offset 0 and advancing by \<open>ops->size\<close>, reach the offset
  \<open>dlen\<close> exactly, every step before that being strictly positive. The loop stops
  on pointer inequality with \<open>&data[dlen]\<close> only: when the offsets never equal
  \<open>dlen\<close>, in particular when they pass it without having met it, the loop never
  reaches its end marker.
\<close>

theorem nft_rule_for_each_expr_returns_iff:
  "(\<exists>visited. nft_rule_for_each_expr rule = Some visited) =
     (\<exists>n. expr_ptr_at rule n = nft_expr_last rule
        \<and> (\<forall>k<n. 0 < unat (ops_size (ops (data rule (expr_ptr_at rule k))))))
   \<and> ((\<forall>n. expr_ptr_at rule n \<noteq> nft_expr_last rule) \<longrightarrow>
        nft_rule_for_each_expr rule = None)
   \<and> ((\<exists>n. nft_expr_last rule < expr_ptr_at rule n
          \<and> (\<forall>k<n. expr_ptr_at rule k \<noteq> nft_expr_last rule)) \<longrightarrow>
        nft_rule_for_each_expr rule = None)"
proof (intro conjI impI)
  show "(\<exists>visited. nft_rule_for_each_expr rule = Some visited) =
     (\<exists>n. expr_ptr_at rule n = nft_expr_last rule
        \<and> (\<forall>k<n. 0 < unat (ops_size (ops (data rule (expr_ptr_at rule k))))))"
    by (rule for_each_returns_iff)
next
  assume "\<forall>n. expr_ptr_at rule n \<noteq> nft_expr_last rule"
  then show "nft_rule_for_each_expr rule = None"
    by (intro never_hits_never_returns) simp
next
  assume "\<exists>n. nft_expr_last rule < expr_ptr_at rule n
          \<and> (\<forall>k<n. expr_ptr_at rule k \<noteq> nft_expr_last rule)"
  then obtain n where "nft_expr_last rule < expr_ptr_at rule n"
    and "\<And>k. k < n \<Longrightarrow> expr_ptr_at rule k \<noteq> nft_expr_last rule"
    by blast
  then show "nft_rule_for_each_expr rule = None"
    by (rule overshoot_never_returns)
qed

theorem nft_rule_for_each_expr_returns_iff_witness:
  "expr_ptr_at \<lparr>handle = 7, dlen = 16, data = (\<lambda>off. \<lparr>ops = \<lparr>ops_size = 8\<rparr>\<rparr>)\<rparr> 2
     = nft_expr_last \<lparr>handle = 7, dlen = 16, data = (\<lambda>off. \<lparr>ops = \<lparr>ops_size = 8\<rparr>\<rparr>)\<rparr>
   \<and> (\<exists>visited. nft_rule_for_each_expr
         \<lparr>handle = 7, dlen = 16, data = (\<lambda>off. \<lparr>ops = \<lparr>ops_size = 8\<rparr>\<rparr>)\<rparr> = Some visited)
   \<and> nft_expr_last \<lparr>handle = 7, dlen = 12, data = (\<lambda>off. \<lparr>ops = \<lparr>ops_size = 8\<rparr>\<rparr>)\<rparr>
     < expr_ptr_at \<lparr>handle = 7, dlen = 12, data = (\<lambda>off. \<lparr>ops = \<lparr>ops_size = 8\<rparr>\<rparr>)\<rparr> 2
   \<and> nft_rule_for_each_expr
        \<lparr>handle = 7, dlen = 12, data = (\<lambda>off. \<lparr>ops = \<lparr>ops_size = 8\<rparr>\<rparr>)\<rparr> = None"
proof -
  let ?ok = "\<lparr>handle = 7, dlen = 16, data = (\<lambda>off. \<lparr>ops = \<lparr>ops_size = 8\<rparr>\<rparr>)\<rparr>"
  let ?bad = "\<lparr>handle = 7, dlen = 12, data = (\<lambda>off. \<lparr>ops = \<lparr>ops_size = 8\<rparr>\<rparr>)\<rparr>"
  have step: "expr_ptr_at r (Suc n) = nft_expr_next r (expr_ptr_at r n)" for r n
    by (simp add: expr_ptr_at_def)
  have p0: "expr_ptr_at ?ok 0 = 0" "expr_ptr_at ?bad 0 = 0"
    by (simp_all add: expr_ptr_at_def nft_expr_first_def)
  have p1: "expr_ptr_at ?ok (Suc 0) = 8" "expr_ptr_at ?bad (Suc 0) = 8"
    by (simp_all add: step p0 nft_expr_next_def)
  have "expr_ptr_at ?ok (Suc (Suc 0)) = 16" "expr_ptr_at ?bad (Suc (Suc 0)) = 16"
    by (simp_all add: step p0 nft_expr_next_def)
  then have p2: "expr_ptr_at ?ok 2 = 16" "expr_ptr_at ?bad 2 = 16"
    by (simp_all only: numeral_2_eq_2)
  have lst: "nft_expr_last ?ok = 16" "nft_expr_last ?bad = 12"
    by (simp_all add: nft_expr_last_def)
  have hit: "expr_ptr_at ?ok 2 = nft_expr_last ?ok
      \<and> (\<forall>k<2. 0 < unat (ops_size (ops (data ?ok (expr_ptr_at ?ok k)))))"
    by (simp add: p2 lst)
  have over: "nft_expr_last ?bad < expr_ptr_at ?bad 2
      \<and> (\<forall>k<2. expr_ptr_at ?bad k \<noteq> nft_expr_last ?bad)"
    using p0 p1 by (auto simp add: p2 lst dest!: less_2_cases)
  from hit have 1: "\<exists>visited. nft_rule_for_each_expr ?ok = Some visited"
    using nft_rule_for_each_expr_returns_iff [of ?ok] by blast
  from over have 2: "nft_rule_for_each_expr ?bad = None"
    using nft_rule_for_each_expr_returns_iff [of ?bad] by blast
  from hit over 1 2 show ?thesis
    by blast
qed

section \<open>Sets: insert, lookup, remove\<close>

lemma find_append_new:
  "find P xs = None \<Longrightarrow> P x \<Longrightarrow> find P (xs @ [x]) = Some x"
  by (induction xs) (auto split: if_splits)

lemma find_none_iff_not_ex: "find P xs = None \<longleftrightarrow> \<not> list_ex P xs"
  by (induction xs) auto

lemma lookup_after_insert:
  assumes "nft_set_insert elems elem = (None, elems')"
  shows "nft_set_lookup elems' (key elem) d = (True, elem_data elem)"
proof -
  from assms have new: "\<not> list_ex (\<lambda>e. key e = key elem) elems"
    and elems': "elems' = elems @ [elem]"
    by (auto simp add: nft_set_insert_def split: if_splits)
  from new have "find (\<lambda>e. key e = key elem) elems = None"
    by (simp add: find_none_iff_not_ex)
  then have "find (\<lambda>e. key e = key elem) (elems @ [elem]) = Some elem"
    by (rule find_append_new) simp
  then show ?thesis
    by (simp add: nft_set_lookup_def elems')
qed

lemma lookup_after_remove:
  "nft_set_lookup (nft_set_remove elems elem) (key elem) d = (False, d)"
proof -
  have "\<not> list_ex (\<lambda>e. key e = key elem) (filter (\<lambda>e. key e \<noteq> key elem) elems)"
    by (simp add: list_ex_iff)
  then have "find (\<lambda>e. key e = key elem) (filter (\<lambda>e. key e \<noteq> key elem) elems) = None"
    unfolding find_none_iff_not_ex .
  then show ?thesis
    by (simp add: nft_set_lookup_def nft_set_remove_def)
qed

lemma insert_duplicate:
  assumes "nft_set_lookup elems (key elem) d = (True, d')"
  shows "nft_set_insert elems elem = (Some Exists, elems)"
proof -
  from assms have "find (\<lambda>e. key e = key elem) elems \<noteq> None"
    by (auto simp add: nft_set_lookup_def split: option.splits)
  then have "list_ex (\<lambda>e. key e = key elem) elems"
    by (simp add: find_none_iff_not_ex)
  then show ?thesis
    by (simp add: nft_set_insert_def)
qed

text \<open>
  Claim C7. For a set as the contract describes it: when \<open>insert\<close> of an element
  with key \<open>k\<close> and data \<open>d\<close> succeeds, \<open>lookup(k)\<close> afterwards returns
  \<open>(present = true, data = d)\<close>; after \<open>remove\<close> of that element, \<open>lookup(k)\<close>
  returns \<open>present = false\<close>; and \<open>insert\<close> of an element whose key is already in
  the set returns \<open>Exists\<close> and leaves the set, and with it the data of the entry
  already there, unchanged.
\<close>

theorem nft_set_insert_lookup_remove:
  "(nft_set_insert elems elem = (None, elems') \<longrightarrow>
      nft_set_lookup elems' (key elem) d = (True, elem_data elem)
      \<and> fst (nft_set_lookup (nft_set_remove elems' elem) (key elem) d) = False)
   \<and> (nft_set_lookup elems (key elem) d = (True, d') \<longrightarrow>
      nft_set_insert elems elem = (Some Exists, elems)
      \<and> nft_set_lookup (snd (nft_set_insert elems elem)) (key elem) d = (True, d'))"
  by (simp add: lookup_after_insert lookup_after_remove insert_duplicate)

theorem nft_set_insert_lookup_remove_witness:
  "nft_set_insert []
      \<lparr>cookie = 0, key = \<lparr>data0 = 10, data1 = 0, data2 = 0, data3 = 0\<rparr>,
       elem_data = \<lparr>data0 = 1, data1 = 2, data2 = 3, data3 = 4\<rparr>, elem_flags = 0\<rparr>
    = (None,
       [\<lparr>cookie = 0, key = \<lparr>data0 = 10, data1 = 0, data2 = 0, data3 = 0\<rparr>,
         elem_data = \<lparr>data0 = 1, data1 = 2, data2 = 3, data3 = 4\<rparr>, elem_flags = 0\<rparr>])
   \<and> nft_set_lookup
       [\<lparr>cookie = 0, key = \<lparr>data0 = 10, data1 = 0, data2 = 0, data3 = 0\<rparr>,
         elem_data = \<lparr>data0 = 1, data1 = 2, data2 = 3, data3 = 4\<rparr>, elem_flags = 0\<rparr>]
       \<lparr>data0 = 10, data1 = 0, data2 = 0, data3 = 0\<rparr>
       \<lparr>data0 = 0, data1 = 0, data2 = 0, data3 = 0\<rparr>
     = (True, \<lparr>data0 = 1, data1 = 2, data2 = 3, data3 = 4\<rparr>)
   \<and> fst (nft_set_lookup
       (nft_set_remove
         [\<lparr>cookie = 0, key = \<lparr>data0 = 10, data1 = 0, data2 = 0, data3 = 0\<rparr>,
           elem_data = \<lparr>data0 = 1, data1 = 2, data2 = 3, data3 = 4\<rparr>, elem_flags = 0\<rparr>]
         \<lparr>cookie = 0, key = \<lparr>data0 = 10, data1 = 0, data2 = 0, data3 = 0\<rparr>,
          elem_data = \<lparr>data0 = 1, data1 = 2, data2 = 3, data3 = 4\<rparr>, elem_flags = 0\<rparr>)
       \<lparr>data0 = 10, data1 = 0, data2 = 0, data3 = 0\<rparr>
       \<lparr>data0 = 0, data1 = 0, data2 = 0, data3 = 0\<rparr>) = False
   \<and> nft_set_insert
       [\<lparr>cookie = 0, key = \<lparr>data0 = 10, data1 = 0, data2 = 0, data3 = 0\<rparr>,
         elem_data = \<lparr>data0 = 1, data1 = 2, data2 = 3, data3 = 4\<rparr>, elem_flags = 0\<rparr>]
       \<lparr>cookie = 1, key = \<lparr>data0 = 10, data1 = 0, data2 = 0, data3 = 0\<rparr>,
        elem_data = \<lparr>data0 = 9, data1 = 9, data2 = 9, data3 = 9\<rparr>, elem_flags = 0\<rparr>
     = (Some Exists,
        [\<lparr>cookie = 0, key = \<lparr>data0 = 10, data1 = 0, data2 = 0, data3 = 0\<rparr>,
          elem_data = \<lparr>data0 = 1, data1 = 2, data2 = 3, data3 = 4\<rparr>, elem_flags = 0\<rparr>])"
proof -
  let ?k = "\<lparr>data0 = 10, data1 = 0, data2 = 0, data3 = 0\<rparr>"
  let ?d = "\<lparr>data0 = 1, data1 = 2, data2 = 3, data3 = 4\<rparr>"
  let ?z = "\<lparr>data0 = 0, data1 = 0, data2 = 0, data3 = 0\<rparr>"
  let ?e = "\<lparr>cookie = 0, key = ?k, elem_data = ?d, elem_flags = 0\<rparr>"
  let ?e' = "\<lparr>cookie = 1, key = ?k,
      elem_data = \<lparr>data0 = 9, data1 = 9, data2 = 9, data3 = 9\<rparr>, elem_flags = 0\<rparr>"
  have ins: "nft_set_insert [] ?e = (None, [?e])"
    by (simp add: nft_set_insert_def)
  with nft_set_insert_lookup_remove [of "[]" ?e "[?e]" ?z]
  have look: "nft_set_lookup [?e] ?k ?z = (True, ?d)"
    and gone: "fst (nft_set_lookup (nft_set_remove [?e] ?e) ?k ?z) = False"
    by simp_all
  with nft_set_insert_lookup_remove [of "[?e]" ?e' _ ?z ?d]
  have dup: "nft_set_insert [?e] ?e' = (Some Exists, [?e])"
    by simp
  from ins look gone dup show ?thesis
    by blast
qed

section \<open>The jump graph: depth and cycles\<close>

lemma foldr_max_ge: "x \<in> set xs \<Longrightarrow> x \<le> foldr max xs (0::nat)"
  by (induction xs) (auto simp add: max_def)

lemma foldr_max_mem: "0 < foldr max xs (0::nat) \<Longrightarrow> foldr max xs 0 \<in> set xs"
  by (induction xs) (auto simp add: max_def)

lemma deepest_Suc_pos:
  assumes "0 < deepest E (Suc fuel) c"
  shows "\<exists>p. (p, c) \<in> set E \<and> deepest E (Suc fuel) c = Suc (deepest E fuel p)"
proof -
  let ?xs = "map (\<lambda>(a, b). if b = c then Suc (deepest E fuel a) else 0) E"
  from assms have "0 < foldr max ?xs 0"
    by simp
  then have "foldr max ?xs 0 \<in> set ?xs"
    by (rule foldr_max_mem)
  with assms show ?thesis
    by (auto split: if_splits)
qed

lemma deepest_Suc_ge:
  assumes "(p, c) \<in> set E"
  shows "Suc (deepest E fuel p) \<le> deepest E (Suc fuel) c"
proof -
  let ?xs = "map (\<lambda>(a, b). if b = c then Suc (deepest E fuel a) else 0) E"
  from assms have "Suc (deepest E fuel p) \<in> set ?xs"
    by force
  then have "Suc (deepest E fuel p) \<le> foldr max ?xs 0"
    by (rule foldr_max_ge)
  then show ?thesis
    by simp
qed

lemma deepest_path:
  "n \<le> deepest E fuel c \<Longrightarrow> \<exists>a. jump_path E a n c"
proof (induction fuel arbitrary: n c)
  case 0
  then show ?case
    by (auto intro: jump_path.here)
next
  case (Suc fuel)
  show ?case
  proof (cases n)
    case 0
    then show ?thesis
      by (auto intro: jump_path.here)
  next
    case (Suc m)
    with Suc.prems have "0 < deepest E (Suc fuel) c"
      by (simp del: deepest.simps)
    from deepest_Suc_pos [OF this] obtain p
      where p: "(p, c) \<in> set E" "deepest E (Suc fuel) c = Suc (deepest E fuel p)"
      by blast
    with Suc.prems Suc have "m \<le> deepest E fuel p"
      by (simp del: deepest.simps)
    from Suc.IH [OF this] obtain a where "jump_path E a m p" ..
    with p(1) show ?thesis
      unfolding Suc by (auto intro: jump_path.jump)
  qed
qed

lemma path_deepest:
  "jump_path E a n c \<Longrightarrow> n \<le> fuel \<Longrightarrow> n \<le> deepest E fuel c"
proof (induction arbitrary: fuel rule: jump_path.induct)
  case (here a)
  then show ?case
    by simp
next
  case (jump a n b c)
  then obtain f where f: "fuel = Suc f" "n \<le> f"
    by (cases fuel) auto
  from jump.IH [OF f(2)] deepest_Suc_ge [OF jump.hyps(2), of f] show ?case
    unfolding f(1) by (simp del: deepest.simps)
qed

lemma chain_depth_pos:
  assumes "0 < chain_depth E c"
  shows "\<exists>p. (p, c) \<in> set E"
  using deepest_Suc_pos [of E NFT_JUMP_STACK_SIZE c] assms
  unfolding chain_depth_def by blast

lemma chain_depth_path: "n \<le> chain_depth E c \<Longrightarrow> \<exists>a. jump_path E a n c"
  unfolding chain_depth_def by (rule deepest_path)

lemma path_chain_depth:
  "jump_path E a n c \<Longrightarrow> n \<le> Suc NFT_JUMP_STACK_SIZE \<Longrightarrow> n \<le> chain_depth E c"
  unfolding chain_depth_def by (rule path_deepest)

lemma chain_depth_empty: "chain_depth [] c = 0"
  by (simp add: chain_depth_def)

lemma jump_path_trans:
  "jump_path E b m c \<Longrightarrow> jump_path E a n b \<Longrightarrow> jump_path E a (n + m) c"
  by (induction rule: jump_path.induct) (auto intro: jump_path.intros)

lemma jump_path_suffix:
  "jump_path E a (n + m) c \<Longrightarrow> \<exists>b. jump_path E b m c"
proof (induction m arbitrary: c)
  case 0
  then show ?case
    by (auto intro: jump_path.here)
next
  case (Suc m)
  from Suc.prems obtain b where b: "jump_path E a (n + m) b" "(b, c) \<in> set E"
    by (auto elim: jump_path.cases)
  from Suc.IH [OF b(1)] b(2) show ?case
    by (auto intro: jump_path.jump)
qed

lemma cycle_unbounded:
  assumes "jump_path E c (Suc n) c"
  shows "\<exists>m\<ge>k. jump_path E c m c"
proof (induction k)
  case 0
  then show ?case
    by (auto intro: jump_path.here)
next
  case (Suc k)
  then obtain m where "k \<le> m" "jump_path E c m c"
    by blast
  with jump_path_trans [OF assms this(2)] show ?case
    by (intro exI [of _ "m + Suc n"]) simp
qed

lemma jump_path_mono:
  "jump_path E a n c \<Longrightarrow> set E \<subseteq> set E' \<Longrightarrow> jump_path E' a n c"
  by (induction rule: jump_path.induct) (auto intro: jump_path.intros)

lemma not_exceeded_bound:
  assumes "\<not> depth_exceeded E"
  shows "chain_depth E c \<le> NFT_JUMP_STACK_SIZE"
proof (cases "0 < chain_depth E c")
  case True
  from chain_depth_pos [OF this] obtain p where "(p, c) \<in> set E"
    by blast
  with assms show ?thesis
    by (auto simp add: depth_exceeded_def list_ex_iff not_less)
next
  case False
  then show ?thesis
    by simp
qed

lemma exceeded_iff_path:
  "depth_exceeded E \<longleftrightarrow> (\<exists>a n c. NFT_JUMP_STACK_SIZE < n \<and> jump_path E a n c)"
proof
  assume "depth_exceeded E"
  then obtain c where "Suc NFT_JUMP_STACK_SIZE \<le> chain_depth E c"
    by (auto simp add: depth_exceeded_def list_ex_iff Suc_le_eq)
  from chain_depth_path [OF this] show "\<exists>a n c. NFT_JUMP_STACK_SIZE < n \<and> jump_path E a n c"
    by (meson lessI)
next
  assume "\<exists>a n c. NFT_JUMP_STACK_SIZE < n \<and> jump_path E a n c"
  then obtain a n c where n: "NFT_JUMP_STACK_SIZE < n" and p: "jump_path E a n c"
    by blast
  from n have "n = (n - Suc NFT_JUMP_STACK_SIZE) + Suc NFT_JUMP_STACK_SIZE"
    by simp
  with p jump_path_suffix [of E a "n - Suc NFT_JUMP_STACK_SIZE" "Suc NFT_JUMP_STACK_SIZE" c]
  obtain b where "jump_path E b (Suc NFT_JUMP_STACK_SIZE) c"
    by auto
  from path_chain_depth [OF this] have "NFT_JUMP_STACK_SIZE < chain_depth E c"
    by simp
  with not_exceeded_bound [of E c] show "depth_exceeded E"
    by (auto simp add: not_less [symmetric])
qed

lemma cycle_exceeded:
  assumes "jump_path E c (Suc n) c"
  shows "depth_exceeded E"
proof -
  from cycle_unbounded [OF assms, of "Suc NFT_JUMP_STACK_SIZE"]
  obtain m where "Suc NFT_JUMP_STACK_SIZE \<le> m" "jump_path E c m c"
    by blast
  then show ?thesis
    unfolding exceeded_iff_path by (meson Suc_le_lessD)
qed

lemma add_jump_inv:
  assumes "add_jump st a b = Inr st'"
  shows "levels_inv st' \<and> jumps st' = (a, b) # jumps st"
  using assms
  by (auto simp add: add_jump_def Let_def levels_inv_def recompute_levels_def
      split: if_splits)

lemma add_jump_error:
  "add_jump st a b = Inl err \<Longrightarrow> err = CycleOrDepthExceeded"
  by (auto simp add: add_jump_def Let_def split: if_splits)

lemma insert_rule_inv:
  "insert_rule st a bs = Inr st' \<Longrightarrow>
   levels_inv st \<Longrightarrow> levels_inv st' \<and> jumps st' = rev (map (Pair a) bs) @ jumps st"
proof (induction bs arbitrary: st)
  case Nil
  then show ?case
    by simp
next
  case (Cons b bs)
  from Cons.prems(1) obtain st1 where 1: "add_jump st a b = Inr st1"
    and 2: "insert_rule st1 a bs = Inr st'"
    by (auto split: sum.splits)
  from add_jump_inv [OF 1] Cons.IH [OF 2] show ?case
    by simp
qed

lemma insert_rule_error:
  "insert_rule st a bs = Inl err \<Longrightarrow> err = CycleOrDepthExceeded"
  by (induction bs arbitrary: st) (auto split: sum.splits dest: add_jump_error)

lemma reachable_inv: "reachable st \<Longrightarrow> levels_inv st"
proof (induction rule: reachable.induct)
  case (initial st)
  then show ?case
    by (simp add: levels_inv_def depth_exceeded_def chain_depth_empty)
next
  case (inserted st a bs st')
  then show ?case
    using insert_rule_inv by blast
qed

lemma levels_inv_level:
  assumes "levels_inv st"
  shows "unat (level (chain st c)) = chain_depth (jumps st) c"
proof -
  from assms not_exceeded_bound [of "jumps st" c]
  have "chain_depth (jumps st) c \<le> 16"
    by (simp add: levels_inv_def NFT_JUMP_STACK_SIZE_def)
  then have "unat (of_nat (chain_depth (jumps st) c) :: u16) = chain_depth (jumps st) c"
    by (simp add: unat_of_nat)
  with assms show ?thesis
    by (simp add: levels_inv_def)
qed

lemma levels_inv_longest:
  assumes "levels_inv st"
  shows "unat (level (chain st c)) \<le> NFT_JUMP_STACK_SIZE"
    and "\<exists>a. jump_path (jumps st) a (unat (level (chain st c))) c"
    and "jump_path (jumps st) a n c \<Longrightarrow> n \<le> unat (level (chain st c))"
    and "\<not> jump_path (jumps st) c (Suc n) c"
proof -
  note lv = levels_inv_level [OF assms]
  from assms have ne: "\<not> depth_exceeded (jumps st)"
    by (simp add: levels_inv_def)
  show "unat (level (chain st c)) \<le> NFT_JUMP_STACK_SIZE"
    using not_exceeded_bound [OF ne] by (simp add: lv)
  show "\<exists>a. jump_path (jumps st) a (unat (level (chain st c))) c"
    by (rule chain_depth_path) (simp add: lv)
  show "n \<le> unat (level (chain st c))" if p: "jump_path (jumps st) a n c"
  proof -
    from ne p have "n \<le> NFT_JUMP_STACK_SIZE"
      unfolding exceeded_iff_path by (meson not_less)
    with path_chain_depth [OF p] show ?thesis
      by (simp add: lv)
  qed
  show "\<not> jump_path (jumps st) c (Suc n) c"
    using ne cycle_exceeded by blast
qed

lemma insert_rule_rejects:
  assumes inv: "levels_inv st"
    and bad: "depth_exceeded (rev (map (Pair a) bs) @ jumps st)"
  shows "insert_rule st a bs = Inl CycleOrDepthExceeded"
proof (cases "insert_rule st a bs")
  case (Inl err)
  with insert_rule_error [OF Inl] show ?thesis
    by simp
next
  case (Inr st')
  from insert_rule_inv [OF Inr inv] bad show ?thesis
    by (auto simp add: levels_inv_def)
qed

text \<open>
  Claim C5. In every reachable configuration, the \<open>level\<close> of every chain, which is
  the length of the longest jump path reaching the chain, is at most the jump-stack
  capacity \<open>NFT_JUMP_STACK_SIZE\<close> (16), and the jump graph has no cycle. A rule
  insertion that would make a jump path longer than the capacity, or would close a
  jump cycle, is rejected with \<open>CycleOrDepthExceeded\<close> (the error carries no new
  state: the configuration stays as it was); an accepted insertion leads to a
  reachable configuration, where the bound holds again.
\<close>

theorem chain_level_within_jump_stack:
  assumes "reachable st"
  shows "unat (level (chain st c)) \<le> NFT_JUMP_STACK_SIZE
    \<and> (\<exists>a. jump_path (jumps st) a (unat (level (chain st c))) c)
    \<and> (\<forall>a n. jump_path (jumps st) a n c \<longrightarrow> n \<le> unat (level (chain st c)))
    \<and> (\<forall>n. \<not> jump_path (jumps st) c (Suc n) c)
    \<and> ((\<exists>x n y. NFT_JUMP_STACK_SIZE < n \<and> jump_path (map (Pair a) bs @ jumps st) x n y)
          \<longrightarrow> insert_rule st a bs = Inl CycleOrDepthExceeded)
    \<and> ((\<exists>x n. jump_path (map (Pair a) bs @ jumps st) x (Suc n) x)
          \<longrightarrow> insert_rule st a bs = Inl CycleOrDepthExceeded)
    \<and> (\<forall>st'. insert_rule st a bs = Inr st' \<longrightarrow>
          reachable st' \<and> jumps st' = rev (map (Pair a) bs) @ jumps st
          \<and> (\<forall>c'. unat (level (chain st' c')) \<le> NFT_JUMP_STACK_SIZE))"
proof -
  from assms have inv: "levels_inv st"
    by (rule reachable_inv)
  let ?E = "map (Pair a) bs @ jumps st"
  let ?E' = "rev (map (Pair a) bs) @ jumps st"
  have sub: "set ?E \<subseteq> set ?E'"
    by simp
  have long: "insert_rule st a bs = Inl CycleOrDepthExceeded"
    if "\<exists>x n y. NFT_JUMP_STACK_SIZE < n \<and> jump_path ?E x n y"
  proof -
    from that obtain x n y where "NFT_JUMP_STACK_SIZE < n" "jump_path ?E x n y"
      by blast
    with jump_path_mono [OF _ sub] have "depth_exceeded ?E'"
      unfolding exceeded_iff_path by blast
    with inv show ?thesis
      by (rule insert_rule_rejects)
  qed
  have cyc: "insert_rule st a bs = Inl CycleOrDepthExceeded"
    if "\<exists>x n. jump_path ?E x (Suc n) x"
  proof -
    from that obtain x n where "jump_path ?E x (Suc n) x"
      by blast
    with jump_path_mono [OF _ sub] have "jump_path ?E' x (Suc n) x"
      by blast
    then have "depth_exceeded ?E'"
      by (rule cycle_exceeded)
    with inv show ?thesis
      by (rule insert_rule_rejects)
  qed
  have acc: "reachable st' \<and> jumps st' = ?E'
      \<and> (\<forall>c'. unat (level (chain st' c')) \<le> NFT_JUMP_STACK_SIZE)"
    if "insert_rule st a bs = Inr st'" for st'
  proof -
    from assms that have "reachable st'"
      by (rule reachable.inserted)
    moreover from insert_rule_inv [OF that inv] have "levels_inv st'" "jumps st' = ?E'"
      by simp_all
    ultimately show ?thesis
      using levels_inv_longest(1) by blast
  qed
  from levels_inv_longest [OF inv] long cyc acc show ?thesis
    by blast
qed

theorem chain_level_within_jump_stack_witness:
  "reachable empty_table
   \<and> unat (level (chain empty_table 5)) \<le> NFT_JUMP_STACK_SIZE
   \<and> jump_path (map (Pair 0) [0] @ jumps empty_table) 0 (Suc 0) 0
   \<and> insert_rule empty_table 0 [0] = Inl CycleOrDepthExceeded
   \<and> (\<exists>st'. insert_rule empty_table 0 [1] = Inr st' \<and> reachable st'
         \<and> jumps st' = [(0, 1)]
         \<and> unat (level (chain st' 1)) \<le> NFT_JUMP_STACK_SIZE)"
proof -
  have r: "reachable empty_table"
    by (rule reachable.initial) (simp_all add: empty_table_def)
  have loop: "jump_path (map (Pair 0) [0] @ jumps empty_table) 0 (Suc 0) 0"
    by (rule jump_path.jump [OF jump_path.here]) simp
  have ok: "\<not> depth_exceeded [(0, 1)]"
    by code_simp
  then have "\<exists>st'. insert_rule empty_table 0 [1] = Inr st'"
    by (simp add: add_jump_def empty_table_def Let_def)
  then obtain st' where ins: "insert_rule empty_table 0 [1] = Inr st'" ..
  note bound = chain_level_within_jump_stack [OF r]
  from bound [of 5] have lv: "unat (level (chain empty_table 5)) \<le> NFT_JUMP_STACK_SIZE"
    by blast
  from bound [of 0 0 "[0]"] loop have rej: "insert_rule empty_table 0 [0] = Inl CycleOrDepthExceeded"
    by blast
  from bound [of 0 0 "[1]"] ins have "reachable st' \<and> jumps st' = [(0, 1)]
      \<and> unat (level (chain st' 1)) \<le> NFT_JUMP_STACK_SIZE"
    by (simp add: empty_table_def)
  with ins r lv loop rej show ?thesis
    by blast
qed

end
